theory Spec2Isabelle
  imports Main
begin

section \<open>The HTTP boundary\<close>

text \<open>
  The client talks to two remote endpoints: the authorization endpoint (\<open>loginUrl\<close>) and
  the API (\<open>baseUrl\<close>). What they answer is input to the program. A response carries
  the fields the code reads: \<open>status\<close> and \<open>statusText\<close>, the JSON object of a token
  response (\<open>resp.json()\<close> of the fetch class, \<open>resp.data\<close> of the axios class; \<open>None\<close>
  when the body does not parse to an object), the text of the body (\<open>resp.text()\<close>,
  \<open>None\<close> when reading it fails) and, for the axios class, \<open>resp.data\<close> as the string
  the error message is cut from (\<open>resp.data\<close> itself when it is a string, else
  \<open>JSON.stringify(resp.data ?? {})\<close>).

  A field of the token object is \<open>None\<close> when it is missing (\<open>undefined\<close>);
  \<open>access_token\<close> is a string and \<open>expires_in\<close> an integer number of seconds, as the
  authorization endpoint documents them. The empty string and the number 0 are the
  falsy values of these types.
\<close>

record token_body =
  access_token :: "string option"
  expires_in :: "int option"

record response =
  status :: nat
  statusText :: string
  json :: "token_body option"
  body_text :: "string option"
  data_string :: string

text \<open>\<open>resp.ok\<close> of the fetch API: the status is in the range 200..299.\<close>

definition ok :: "response \<Rightarrow> bool" where
  "ok resp = (200 \<le> status resp \<and> status resp \<le> 299)"

text \<open>
  One exchange with an endpoint: after \<open>latency\<close> milliseconds either a response arrives
  or the connection fails (\<open>answer = None\<close>).
\<close>

record reply =
  latency :: nat
  answer :: "response option"

text \<open>
  What a call does to the outside: the requests it sends (a submit and an account
  request carry the bearer token of their Authorization header) and the timers it
  waits for.
\<close>

datatype event =
    TokenRequest
  | Submit "string option"
  | AccountGet string
  | Sleep nat

text \<open>
  The world of a call: the clock \<open>Date.now()\<close> reads, what each endpoint will answer
  to the requests it receives (in order), and the events so far.
\<close>

record world =
  clock :: int
  login :: "reply list"
  api :: "reply list"
  trace :: "event list"

text \<open>Every \<open>throw\<close> of the source and every rejection of the transport is a value.\<close>

datatype error =
    MissingConfig
  | Required string
  | TokenFetchError nat string
  | NoAccessToken
  | BadJson
  | Aborted
  | NetworkError
  | SendEmailError nat string string

section \<open>The client object\<close>

text \<open>
  The fields of \<open>FlowmailerClient\<close> that the control flow reads or writes. \<open>token\<close>,
  \<open>expiresAt\<close> and \<open>inflightRefresh\<close> are \<open>_token\<close>, \<open>_expiresAt\<close> and
  \<open>_inflightRefresh\<close>; the marker holds a handle of type \<open>'p\<close> of the stored promise.
  \<open>authorization\<close> is \<open>http.defaults.headers.common.Authorization\<close> of the axios class
  (the fetch class never touches it). The URLs and the user agent only address and
  label the requests and are left out.
\<close>

record 'p client =
  accountId :: string
  clientId :: string
  clientSecret :: string
  graceMs :: int
  timeoutMs :: nat
  maxRetries :: int
  token :: string
  expiresAt :: int
  inflightRefresh :: "'p option"
  authorization :: "string option"




text \<open>\<open>_mustRenew\<close> at clock reading \<open>now\<close>.\<close>

definition mustRenew :: "'p client \<Rightarrow> int \<Rightarrow> bool" where
  "mustRenew c now = (token c = [] \<or> expiresAt c = 0 \<or> now + graceMs c \<ge> expiresAt c)"

section \<open>The fetch class\<close>

text \<open>
  \<open>_fetchWithTimeout\<close> against the next exchange of an endpoint: the outcome and the
  time it took. The abort timer fires after \<open>timeoutMs\<close>; an endpoint with nothing left
  to say refuses the connection.
\<close>

definition fetchWithTimeout :: "'p client \<Rightarrow> reply list \<Rightarrow> (error + response) \<times> nat" where
  "fetchWithTimeout c script =
     (case script of
        [] \<Rightarrow> (Inl NetworkError, 0)
      | r # _ \<Rightarrow>
          if latency r < timeoutMs c
          then (case answer r of
                  None \<Rightarrow> (Inl NetworkError, latency r)
                | Some resp \<Rightarrow> (Inr resp, latency r))
          else (Inl Aborted, timeoutMs c))"

text \<open>
  \<open>_updateAccessToken\<close> from the response on (lines 62 to 73): the checks, and the
  only two assignments to \<open>_token\<close> and \<open>_expiresAt\<close>.
\<close>

definition accept_token :: "'p client \<Rightarrow> int \<Rightarrow> response \<Rightarrow> (error + string) \<times> 'p client" where
  "accept_token c now resp =
     (if \<not> ok resp then (Inl (TokenFetchError (status resp) (statusText resp)), c)
      else case json resp of
             None \<Rightarrow> (Inl BadJson, c)
           | Some b \<Rightarrow>
               (case (access_token b, expires_in b) of
                  (Some a, Some e) \<Rightarrow>
                    if a = [] \<or> e = 0 then (Inl NoAccessToken, c)
                    else (Inr a, c\<lparr>token := a, expiresAt := now + e * 1000\<rparr>)
                | _ \<Rightarrow> (Inl NoAccessToken, c)))"

text \<open>
  \<open>_updateAccessToken\<close> is suspended once, at the \<open>await\<close> of the POST.
  \<open>updateAccessToken_settle\<close> is the function from the moment the POST settles;
  \<open>updateAccessToken\<close> is the whole function: the request is sent, then it settles.
\<close>

definition updateAccessToken_settle ::
  "'p client \<Rightarrow> world \<Rightarrow> (error + string) \<times> 'p client \<times> world" where
  "updateAccessToken_settle c w =
     (case fetchWithTimeout c (login w) of
        (r, dt) \<Rightarrow>
          (let w' = w\<lparr>clock := clock w + int dt, login := tl (login w)\<rparr> in
           case r of
             Inl e \<Rightarrow> (Inl e, c, w')
           | Inr resp \<Rightarrow>
               (case accept_token c (clock w') resp of (res, c') \<Rightarrow> (res, c', w'))))"

definition updateAccessToken ::
  "'p client \<Rightarrow> world \<Rightarrow> (error + string) \<times> 'p client \<times> world" where
  "updateAccessToken c w = updateAccessToken_settle c (w\<lparr>trace := trace w @ [TokenRequest]\<rparr>)"

text \<open>
  \<open>forceRefresh\<close> as one caller sees it. With no promise stored it starts
  \<open>_updateAccessToken\<close> and stores the promise; with one stored it awaits that one, whose
  request is already on its way. Either way the \<open>finally\<close> callback has cleared the
  marker when the caller gets the outcome.
\<close>

definition forceRefresh ::
  "unit client \<Rightarrow> world \<Rightarrow> (error + string) \<times> unit client \<times> world" where
  "forceRefresh c w =
     (case (if inflightRefresh c = None
            then updateAccessToken (c\<lparr>inflightRefresh := Some ()\<rparr>) w
            else updateAccessToken_settle c w) of
        (res, c', w') \<Rightarrow> (res, c'\<lparr>inflightRefresh := None\<rparr>, w'))"

definition getAccessToken ::
  "unit client \<Rightarrow> world \<Rightarrow> (error + string) \<times> unit client \<times> world" where
  "getAccessToken c w =
     (if mustRenew c (clock w) then forceRefresh c w else (Inr (token c), c, w))"

text \<open>
  The argument of \<open>sendEmail\<close>: the fields it validates. A missing field is the empty
  string, a missing \<open>from\<close> is \<open>None\<close>. The other fields only fill the request body.
\<close>

record sender =
  email :: string
  name :: string

record mail =
  toMail :: string
  subject :: string
  from' :: "sender option"

text \<open>The closure \<open>attempt\<close> of \<open>sendEmail\<close>: one POST to \<open>/messages/submit\<close>.\<close>

definition attempt :: "'p client \<Rightarrow> string \<Rightarrow> world \<Rightarrow> (error + response) \<times> world" where
  "attempt c bearerToken w =
     (case fetchWithTimeout c (api w) of
        (r, dt) \<Rightarrow>
          (r, w\<lparr>clock := clock w + int dt, api := tl (api w),
                 trace := trace w @ [Submit (Some bearerToken)]\<rparr>))"

text \<open>\<open>await new Promise((r) => setTimeout(r, backoff))\<close>.\<close>

definition sleep :: "nat \<Rightarrow> world \<Rightarrow> world" where
  "sleep ms w = w\<lparr>clock := clock w + int ms, trace := trace w @ [Sleep ms]\<rparr>"

text \<open>Lines 141 to 145: the check for 401 after the first attempt.\<close>

definition reauth ::
  "unit client \<Rightarrow> string \<Rightarrow> response \<Rightarrow> world \<Rightarrow>
     (error + string \<times> response) \<times> unit client \<times> world" where
  "reauth c tok resp w =
     (if status resp = 401 then
        (case forceRefresh c w of
           (Inl e, c1, w1) \<Rightarrow> (Inl e, c1, w1)
         | (Inr _, c1, w1) \<Rightarrow>
             (case getAccessToken c1 w1 of
                (Inl e, c2, w2) \<Rightarrow> (Inl e, c2, w2)
              | (Inr tok', c2, w2) \<Rightarrow>
                  (case attempt c2 tok' w2 of
                     (Inl e, w3) \<Rightarrow> (Inl e, c2, w3)
                   | (Inr resp', w3) \<Rightarrow> (Inr (tok', resp'), c2, w3))))
      else (Inr (tok, resp), c, w))"

text \<open>Lines 147 to 157: the loop, with \<open>retries\<close> and \<open>resp\<close> as arguments.\<close>

definition retryable :: "'p client \<Rightarrow> response \<Rightarrow> nat \<Rightarrow> bool" where
  "retryable c resp retries =
     (\<not> ok resp \<and> (status resp = 429 \<or> status resp \<ge> 500) \<and> int retries < maxRetries c)"

function retry_loop ::
  "'p client \<Rightarrow> string \<Rightarrow> response \<Rightarrow> nat \<Rightarrow> world \<Rightarrow> (error + response) \<times> world" where
  "retry_loop c tok resp retries w =
     (if retryable c resp retries then
        (case attempt c tok (sleep (200 * 2 ^ retries) w) of
           (Inl e, w') \<Rightarrow> (Inl e, w')
         | (Inr resp', w') \<Rightarrow> retry_loop c tok resp' (retries + 1) w')
      else (Inr resp, w))"
  by pat_completeness auto
termination
  by (relation "measure (\<lambda>(c, tok, resp, retries, w). nat (maxRetries c - int retries))")
     (auto simp: retryable_def)

declare retry_loop.simps [simp del]

text \<open>
  Lines 159 to 168: the verdict on the last response. The error stands for the message
  \<open>sendEmail error: <status> <statusText>\<close> followed, when the body is not empty, by a
  dash and \<open>body.slice(0, 300)\<close>; a body that cannot be read counts as empty.
\<close>

definition finish :: "response \<Rightarrow> error + bool" where
  "finish resp =
     (if \<not> ok resp then
        (let body = (case body_text resp of None \<Rightarrow> [] | Some b \<Rightarrow> b) in
         Inl (SendEmailError (status resp) (statusText resp) (take 300 body)))
      else Inr True)"

definition sendEmail ::
  "unit client \<Rightarrow> mail \<Rightarrow> world \<Rightarrow> (error + bool) \<times> unit client \<times> world" where
  "sendEmail c m w =
     (if toMail m = [] then (Inl (Required ''toMail required''), c, w)
      else if subject m = [] then (Inl (Required ''subject required''), c, w)
      else if (case from' m of None \<Rightarrow> True | Some f \<Rightarrow> email f = [] \<or> name f = [])
        then (Inl (Required ''Missing from.email or from.name''), c, w)
      else
        (case getAccessToken c w of
           (Inl e, c1, w1) \<Rightarrow> (Inl e, c1, w1)
         | (Inr tok, c1, w1) \<Rightarrow>
             (case attempt c1 tok w1 of
                (Inl e, w2) \<Rightarrow> (Inl e, c1, w2)
              | (Inr resp, w2) \<Rightarrow>
                  (case reauth c1 tok resp w2 of
                     (Inl e, c3, w3) \<Rightarrow> (Inl e, c3, w3)
                   | (Inr (tok', resp'), c3, w3) \<Rightarrow>
                       (case retry_loop c3 tok' resp' 0 w3 of
                          (Inl e, w4) \<Rightarrow> (Inl e, c3, w4)
                        | (Inr resp'', w4) \<Rightarrow> (finish resp'', c3, w4))))))"

text \<open>\<open>ping\<close>: one GET of the account, answered by \<open>resp.ok\<close>.\<close>

definition ping :: "unit client \<Rightarrow> world \<Rightarrow> (error + bool) \<times> unit client \<times> world" where
  "ping c w =
     (case getAccessToken c w of
        (Inl e, c1, w1) \<Rightarrow> (Inl e, c1, w1)
      | (Inr tok, c1, w1) \<Rightarrow>
          (case fetchWithTimeout c1 (api w1) of
             (r, dt) \<Rightarrow>
               (let w2 = w1\<lparr>clock := clock w1 + int dt, api := tl (api w1),
                            trace := trace w1 @ [AccountGet tok]\<rparr> in
                case r of
                  Inl e \<Rightarrow> (Inl e, c1, w2)
                | Inr resp \<Rightarrow> (Inr (ok resp), c1, w2))))"

section \<open>The axios class\<close>


text \<open>
  \<open>_updateAccessToken\<close> of the axios class from the response on (lines 259 to 274);
  \<open>resp.data ?? {}\<close> makes both fields missing when there is no object.
\<close>

definition accept_token_ax :: "'p client \<Rightarrow> int \<Rightarrow> response \<Rightarrow> (error + string) \<times> 'p client" where
  "accept_token_ax c now resp =
     (if status resp < 200 \<or> status resp \<ge> 300
      then (Inl (TokenFetchError (status resp) (statusText resp)), c)
      else case (case json resp of
                   None \<Rightarrow> (None, None)
                 | Some b \<Rightarrow> (access_token b, expires_in b)) of
             (Some a, Some e) \<Rightarrow>
               if a = [] \<or> e = 0 then (Inl NoAccessToken, c)
               else (Inr a, c\<lparr>token := a, expiresAt := now + e * 1000,
                               authorization := Some a\<rparr>)
           | _ \<Rightarrow> (Inl NoAccessToken, c))"












section \<open>Concurrent callers of the credential methods\<close>

text \<open>
  JavaScript runs one piece of code at a time, up to its next \<open>await\<close>. Many callers
  of \<open>getAccessToken\<close> and \<open>forceRefresh\<close> therefore interleave only at these points:
  \<^item> a call runs up to the \<open>await\<close> of the stored promise (a refresh is started on
    the way when none is stored), or returns the cached token;
  \<^item> the POST of a refresh settles and the rest of \<open>_updateAccessToken\<close> runs;
  \<^item> the \<open>finally\<close> callback of that refresh runs, and the stored promise settles;
  \<^item> a caller that awaited a settled promise continues.
  A promise is known by its handle, a number; the marker \<open>_inflightRefresh\<close> holds the
  handle of the stored promise. The steps may come in any order the state allows.
\<close>

datatype call = GetAccessToken | ForceRefresh

type_synonym outcome = "error + string"

record sys =
  obj :: "nat client"
  flying :: "nat list"
  settled :: "(nat \<times> outcome) list"
  resolved :: "(nat \<times> outcome) list"
  waiting :: "(nat \<times> nat) list"
  returned :: "(nat \<times> nat option \<times> outcome) list"
  requests :: nat

text \<open>
  \<open>flying\<close>: the refreshes whose POST is at the authorization endpoint. \<open>settled\<close>: the
  promises of \<open>_updateAccessToken\<close> that have an outcome and whose \<open>finally\<close> callback has
  not run yet. \<open>resolved\<close>: the stored promises that have settled. \<open>waiting\<close>: each
  suspended caller with the handle it awaits. \<open>returned\<close>: what each finished call gave
  its caller, and the handle it had awaited (\<open>None\<close>: the cached token, without an
  \<open>await\<close>). \<open>requests\<close>: the token requests sent so far, also the next handle.
\<close>

datatype step =
    Call nat call int
  | Settle nat "error + response" int
  | Finally nat
  | Resume nat

definition init_sys :: "nat client \<Rightarrow> sys" where
  "init_sys c = \<lparr> obj = c, flying = [], settled = [], resolved = [], waiting = [],
                  returned = [], requests = 0 \<rparr>"

text \<open>\<open>forceRefresh\<close> up to the point where its caller awaits the promise it returns.\<close>

definition call_forceRefresh :: "nat \<Rightarrow> sys \<Rightarrow> sys" where
  "call_forceRefresh caller s =
     (case inflightRefresh (obj s) of
        None \<Rightarrow>
          (let h = requests s in
           s\<lparr>obj := (obj s)\<lparr>inflightRefresh := Some h\<rparr>,
             flying := h # flying s,
             requests := Suc (requests s),
             waiting := waiting s @ [(caller, h)]\<rparr>)
      | Some h \<Rightarrow> s\<lparr>waiting := waiting s @ [(caller, h)]\<rparr>)"

definition call_getAccessToken :: "nat \<Rightarrow> int \<Rightarrow> sys \<Rightarrow> sys" where
  "call_getAccessToken caller now s =
     (if mustRenew (obj s) now then call_forceRefresh caller s
      else s\<lparr>returned := returned s @ [(caller, None, Inr (token (obj s)))]\<rparr>)"

text \<open>
  The POST of refresh \<open>h\<close> settles with \<open>r\<close> (a response, or the error of the
  transport) and the rest of \<open>_updateAccessToken\<close> runs at clock reading \<open>now\<close>. The
  two classes share the text of \<open>forceRefresh\<close> and \<open>getAccessToken\<close> and differ in that
  rest, which is the parameter \<open>acc\<close>: \<open>accept_token\<close> or \<open>accept_token_ax\<close>.
\<close>

type_synonym acceptor = "nat client \<Rightarrow> int \<Rightarrow> response \<Rightarrow> outcome \<times> nat client"

definition settle :: "acceptor \<Rightarrow> nat \<Rightarrow> error + response \<Rightarrow> int \<Rightarrow> sys \<Rightarrow> sys option" where
  "settle acc h r now s =
     (if h \<in> set (flying s) then
        (case (case r of Inl e \<Rightarrow> (Inl e, obj s) | Inr resp \<Rightarrow> acc (obj s) now resp) of
           (res, c') \<Rightarrow>
             Some (s\<lparr>obj := c', flying := removeAll h (flying s),
                     settled := settled s @ [(h, res)]\<rparr>))
      else None)"

text \<open>
  The callback \<open>() => { this._inflightRefresh = null; }\<close> of refresh \<open>h\<close>; the promise
  that \<open>finally\<close> returned, which is the stored one, settles after it.
\<close>

definition finally_callback :: "nat \<Rightarrow> sys \<Rightarrow> sys option" where
  "finally_callback h s =
     (case map_of (settled s) h of
        None \<Rightarrow> None
      | Some res \<Rightarrow>
          Some (s\<lparr>obj := (obj s)\<lparr>inflightRefresh := None\<rparr>,
                  settled := filter (\<lambda>p. fst p \<noteq> h) (settled s),
                  resolved := resolved s @ [(h, res)]\<rparr>))"

definition resume :: "nat \<Rightarrow> sys \<Rightarrow> sys option" where
  "resume caller s =
     (case map_of (waiting s) caller of
        None \<Rightarrow> None
      | Some h \<Rightarrow>
          (case map_of (resolved s) h of
             None \<Rightarrow> None
           | Some res \<Rightarrow>
               Some (s\<lparr>waiting := filter (\<lambda>p. fst p \<noteq> caller) (waiting s),
                       returned := returned s @ [(caller, Some h, res)]\<rparr>)))"

text \<open>One step; \<open>None\<close> when the state does not allow it. A caller makes one call at a time.\<close>

fun fire :: "acceptor \<Rightarrow> step \<Rightarrow> sys \<Rightarrow> sys option" where
  "fire acc (Call caller k now) s =
     (if caller \<in> fst ` set (waiting s) then None
      else Some (case k of
                   ForceRefresh \<Rightarrow> call_forceRefresh caller s
                 | GetAccessToken \<Rightarrow> call_getAccessToken caller now s))"
| "fire acc (Settle h r now) s = settle acc h r now s"
| "fire acc (Finally h) s = finally_callback h s"
| "fire acc (Resume caller) s = resume caller s"

fun run :: "acceptor \<Rightarrow> step list \<Rightarrow> sys \<Rightarrow> sys option" where
  "run acc [] s = Some s"
| "run acc (e # es) s = (case fire acc e s of None \<Rightarrow> None | Some s' \<Rightarrow> run acc es s')"

text \<open>
  What holds of the bookkeeping in every state the steps reach: the marker names the one
  refresh that is under way (its POST in flight, or settled and waiting for its
  \<open>finally\<close> callback), and there is no other; its handle is below the count of
  requests; the promises that have settled are older, each settled once, and none of them
  is the marked one; a caller waits once; and what a caller got from a promise is the
  outcome of that promise.
\<close>

definition coherent :: "sys \<Rightarrow> bool" where
  "coherent s =
     (flying s @ map fst (settled s) =
        (case inflightRefresh (obj s) of None \<Rightarrow> [] | Some h \<Rightarrow> [h]) \<and>
      (\<forall>h. inflightRefresh (obj s) = Some h \<longrightarrow> h < requests s) \<and>
      (\<forall>p \<in> set (resolved s). fst p < requests s \<and> inflightRefresh (obj s) \<noteq> Some (fst p)) \<and>
      distinct (map fst (resolved s)) \<and>
      distinct (map fst (waiting s)) \<and>
      (\<forall>x \<in> set (returned s). \<forall>h.
         fst (snd x) = Some h \<longrightarrow> map_of (resolved s) h = Some (snd (snd x))))"

section \<open>Histories of one client\<close>







section \<open>Inputs for the examples\<close>



text \<open>The client as the constructor leaves it, with the default options.\<close>

definition demo_client :: "'p client" where
  "demo_client = \<lparr> accountId = ''1234'', clientId = ''id'', clientSecret = ''secret'',
                    graceMs = 5000, timeoutMs = 15000, maxRetries = 2,
                    token = [], expiresAt = 0, inflightRefresh = None,
                    authorization = None \<rparr>"

text \<open>The same client holding a token \<open>t\<close> that expires at \<open>e\<close>.\<close>

definition demo_client_with :: "string \<Rightarrow> int \<Rightarrow> 'p client" where
  "demo_client_with t e = demo_client\<lparr>token := t, expiresAt := e, authorization := Some t\<rparr>"

text \<open>A response with status \<open>s\<close> and body \<open>b\<close>, and a token response.\<close>

definition demo_response :: "nat \<Rightarrow> string \<Rightarrow> response" where
  "demo_response s b = \<lparr> status = s, statusText = ''status'', json = None,
                          body_text = Some b, data_string = b \<rparr>"

definition demo_token_response :: "string \<Rightarrow> int \<Rightarrow> response" where
  "demo_token_response t e =
     \<lparr> status = 200, statusText = ''OK'',
       json = Some \<lparr> access_token = Some t, expires_in = Some e \<rparr>,
       body_text = None, data_string = [] \<rparr>"

definition after10 :: "response \<Rightarrow> reply" where
  "after10 resp = \<lparr> latency = 10, answer = Some resp \<rparr>"

definition demo_mail :: mail where
  "demo_mail = \<lparr> toMail = ''to@example.org'', subject = ''Hello'',
                  from' = Some \<lparr> email = ''from@example.org'', name = ''Sender'' \<rparr> \<rparr>"

definition demo_world :: "reply list \<Rightarrow> reply list \<Rightarrow> world" where
  "demo_world l a = \<lparr> clock = 1700000000000, login = l, api = a, trace = [] \<rparr>"

section \<open>Basic facts\<close>

lemma ok_range: "ok resp \<longleftrightarrow> 200 \<le> status resp \<and> status resp < 300"
  by (auto simp: ok_def)

lemmas fetch_defs = sendEmail_def getAccessToken_def mustRenew_def forceRefresh_def
  updateAccessToken_def updateAccessToken_settle_def fetchWithTimeout_def accept_token_def
  ok_def attempt_def reauth_def sleep_def retryable_def finish_def ping_def retry_loop.simps


lemmas demo_defs = demo_client_with_def demo_client_def demo_world_def demo_mail_def
  after10_def demo_response_def demo_token_response_def

subsection \<open>What one step does to the world\<close>



lemma attempt_frame:
  "attempt c tok w = (r, w') \<Longrightarrow>
   login w' = login w \<and> api w' = tl (api w) \<and> trace w' = trace w @ [Submit (Some tok)]"
  by (auto simp: attempt_def split: prod.splits)















subsection \<open>Whole calls against a script of responses\<close>

lemma marker_reset: "inflightRefresh c = None \<Longrightarrow> c\<lparr>inflightRefresh := None\<rparr> = c"
  by (cases c) simp





subsection \<open>The axios class, and calls that meet one response\<close>









subsection \<open>Whole calls of the axios class against a script of responses\<close>








section \<open>The credential cache\<close>

lemma forceRefresh_trace:
  "inflightRefresh c = None \<Longrightarrow> trace (snd (snd (forceRefresh c w))) = trace w @ [TokenRequest]"
  by (simp add: forceRefresh_def updateAccessToken_def updateAccessToken_settle_def Let_def
      split: prod.splits sum.splits)

text \<open>
  Claim C2 (staleness rule). Call the credential stale when the token is the empty
  string, or the expiry is zero, or \<open>now + graceMs >= expiresAt\<close>. When it is not stale,
  \<open>getAccessToken\<close> returns the cached token and leaves the client and the world as they
  were: no request, no clock reading consumed. When it is stale, \<open>getAccessToken\<close> is
  \<open>forceRefresh\<close>; and with no refresh in flight that sends one token request.
\<close>

theorem staleness_rule:
  "(\<not> (token c = [] \<or> expiresAt c = 0 \<or> clock w + graceMs c \<ge> expiresAt c)
      \<longrightarrow> getAccessToken c w = (Inr (token c), c, w))
   \<and> ((token c = [] \<or> expiresAt c = 0 \<or> clock w + graceMs c \<ge> expiresAt c)
      \<longrightarrow> getAccessToken c w = forceRefresh c w)
   \<and> ((token c = [] \<or> expiresAt c = 0 \<or> clock w + graceMs c \<ge> expiresAt c)
       \<and> inflightRefresh c = None
      \<longrightarrow> trace (snd (snd (getAccessToken c w))) = trace w @ [TokenRequest])"
  by (simp add: getAccessToken_def mustRenew_def forceRefresh_trace)

theorem staleness_rule_witness:
  "getAccessToken (demo_client_with ''abc'' 1700003600000) (demo_world [] [])
     = (Inr ''abc'', demo_client_with ''abc'' 1700003600000, demo_world [] [])
   \<and> getAccessToken (demo_client_with ''abc'' 1700000004000) (demo_world [] [])
     = forceRefresh (demo_client_with ''abc'' 1700000004000) (demo_world [] [])
   \<and> trace (snd (snd (getAccessToken (demo_client_with ''abc'' 1700000004000) (demo_world [] []))))
     = [TokenRequest]"
proof -
  let ?fresh = "demo_client_with ''abc'' 1700003600000 :: unit client"
  let ?stale = "demo_client_with ''abc'' 1700000004000 :: unit client"
  let ?w = "demo_world [] []"
  have fresh: "\<not> (token ?fresh = [] \<or> expiresAt ?fresh = 0
                  \<or> clock ?w + graceMs ?fresh \<ge> expiresAt ?fresh)"
    by (simp add: demo_client_with_def demo_client_def demo_world_def)
  have stale: "clock ?w + graceMs ?stale \<ge> expiresAt ?stale" "inflightRefresh ?stale = None"
    by (simp_all add: demo_client_with_def demo_client_def demo_world_def)
  have tok: "token ?fresh = ''abc''" "trace ?w = []"
    by (simp_all add: demo_client_with_def demo_client_def demo_world_def)
  from staleness_rule [of ?fresh ?w] fresh tok
  have 1: "getAccessToken ?fresh ?w = (Inr ''abc'', ?fresh, ?w)" by metis
  from staleness_rule [of ?stale ?w] stale tok
  have 2: "getAccessToken ?stale ?w = forceRefresh ?stale ?w
           \<and> trace (snd (snd (getAccessToken ?stale ?w))) = [TokenRequest]"
    by (metis append_Nil)
  from 1 2 show ?thesis by blast
qed

section \<open>The transient retry policy\<close>




section \<open>Where a 401 is handled\<close>




section \<open>Reauthentication after a 401\<close>




section \<open>The two classes agree on success\<close>




section \<open>What a caller gets back\<close>

















section \<open>The health check\<close>

lemma ping_result:
  assumes g: "getAccessToken c w = (Inr tok, c1, w1)"
  shows "\<exists>res w2. ping c w = (res, c1, w2)
         \<and> trace w2 = trace w1 @ [AccountGet tok] \<and> login w2 = login w1 \<and> api w2 = tl (api w1)
         \<and> (\<forall>d r rest. api w1 = \<lparr>latency = d, answer = Some r\<rparr> # rest \<and> d < timeoutMs c1
               \<longrightarrow> res = Inr (200 \<le> status r \<and> status r < 300))
         \<and> (res = Inl Aborted \<or> res = Inl NetworkError \<or> res = Inr True \<or> res = Inr False)"
proof -
  obtain x dt where f: "fetchWithTimeout c1 (api w1) = (x, dt)"
    by (cases "fetchWithTimeout c1 (api w1)")
  let ?w2 = "w1\<lparr>clock := clock w1 + int dt, api := tl (api w1), trace := trace w1 @ [AccountGet tok]\<rparr>"
  let ?res = "case x of Inl e \<Rightarrow> Inl e | Inr resp \<Rightarrow> Inr (ok resp)"
  from g f have p: "ping c w = (?res, c1, ?w2)"
    by (simp add: ping_def Let_def split: sum.splits)
  have d: "\<forall>d r rest. api w1 = \<lparr>latency = d, answer = Some r\<rparr> # rest \<and> d < timeoutMs c1
               \<longrightarrow> ?res = Inr (200 \<le> status r \<and> status r < 300)"
    using f by (auto simp: fetchWithTimeout_def ok_range)
  have k: "?res = Inl Aborted \<or> ?res = Inl NetworkError \<or> ?res = Inr True \<or> ?res = Inr False"
    using f by (auto simp: fetchWithTimeout_def split: list.splits if_splits option.splits)
  from p d k show ?thesis
    by (intro exI [of _ ?res] exI [of _ ?w2]) simp
qed

text \<open>
  Claim C10 as stated fails where it says that only failures of the transport
  propagate from \<open>ping\<close> and that every call makes one attempt: with an empty cache and
  an authorization endpoint that answers 503, \<open>ping\<close> raises the token error and sends
  no request to the API.
\<close>

theorem ping_token_error_counterexample:
  "ping demo_client (demo_world [after10 (demo_response 503 ''down'')]
                                  [after10 (demo_response 200 ''account'')])
   = (Inl (TokenFetchError 503 ''status''), demo_client,
      \<lparr> clock = 1700000000010, login = [], api = [after10 (demo_response 200 ''account'')],
        trace = [TokenRequest] \<rparr>)"
  by (simp add: fetch_defs demo_defs)

text \<open>
  Claim C10, amended. \<open>ping\<close> first asks \<open>getAccessToken\<close> for a token. When that
  raises, \<open>ping\<close> raises the same error and makes no attempt. When it returns a token,
  \<open>ping\<close> sends exactly one request, with that token, and nothing after it: no token
  request and no sleep, whatever the status (the script of the authorization endpoint is
  untouched). A response that arrives in time gives the value \<open>true\<close> when its status
  is in 200..299 and \<open>false\<close> otherwise, a 401, 429 or 5xx included; the only errors of
  the attempt are those of the transport, a timeout or a failed connection.
\<close>

theorem ping_single_attempt:
  "(getAccessToken c w = (Inl e, c1, w1) \<longrightarrow> ping c w = (Inl e, c1, w1))
   \<and> (getAccessToken c w = (Inr tok, c1, w1) \<longrightarrow>
        (\<exists>res w2. ping c w = (res, c1, w2)
         \<and> trace w2 = trace w1 @ [AccountGet tok] \<and> login w2 = login w1 \<and> api w2 = tl (api w1)
         \<and> (\<forall>d r rest. api w1 = \<lparr>latency = d, answer = Some r\<rparr> # rest \<and> d < timeoutMs c1
               \<longrightarrow> res = Inr (200 \<le> status r \<and> status r < 300))
         \<and> (res = Inl Aborted \<or> res = Inl NetworkError \<or> res = Inr True \<or> res = Inr False)))"
proof (rule conjI; rule impI)
  assume "getAccessToken c w = (Inl e, c1, w1)"
  then show "ping c w = (Inl e, c1, w1)" by (simp add: ping_def)
next
  assume "getAccessToken c w = (Inr tok, c1, w1)"
  then show "\<exists>res w2. ping c w = (res, c1, w2)
         \<and> trace w2 = trace w1 @ [AccountGet tok] \<and> login w2 = login w1 \<and> api w2 = tl (api w1)
         \<and> (\<forall>d r rest. api w1 = \<lparr>latency = d, answer = Some r\<rparr> # rest \<and> d < timeoutMs c1
               \<longrightarrow> res = Inr (200 \<le> status r \<and> status r < 300))
         \<and> (res = Inl Aborted \<or> res = Inl NetworkError \<or> res = Inr True \<or> res = Inr False)"
    by (rule ping_result)
qed


theorem ping_single_attempt_witness:
  "fst (ping (demo_client_with ''abc'' 1700003600000)
          (demo_world [after10 (demo_token_response ''new'' 3600)]
             [after10 (demo_response 401 ''denied''), after10 (demo_response 200 ''account'')]))
     = Inr False
   \<and> trace (snd (snd (ping (demo_client_with ''abc'' 1700003600000)
          (demo_world [after10 (demo_token_response ''new'' 3600)]
             [after10 (demo_response 401 ''denied''), after10 (demo_response 200 ''account'')]))))
     = [AccountGet ''abc'']
   \<and> login (snd (snd (ping (demo_client_with ''abc'' 1700003600000)
          (demo_world [after10 (demo_token_response ''new'' 3600)]
             [after10 (demo_response 401 ''denied''), after10 (demo_response 200 ''account'')]))))
     = [after10 (demo_token_response ''new'' 3600)]
   \<and> ping demo_client (demo_world [after10 (demo_response 503 ''down'')]
                                  [after10 (demo_response 200 ''account'')])
     = (Inl (TokenFetchError 503 ''status''), demo_client,
        \<lparr> clock = 1700000000010, login = [], api = [after10 (demo_response 200 ''account'')],
          trace = [TokenRequest] \<rparr>)"
proof -
  let ?c = "demo_client_with ''abc'' 1700003600000 :: unit client"
  let ?w = "demo_world [after10 (demo_token_response ''new'' 3600)]
             [after10 (demo_response 401 ''denied''), after10 (demo_response 200 ''account'')]"
  let ?v = "demo_world [after10 (demo_response 503 ''down'')] [after10 (demo_response 200 ''account'')]"
  let ?v' = "\<lparr> clock = 1700000000010, login = [], api = [after10 (demo_response 200 ''account'')],
          trace = [TokenRequest] \<rparr>"
  have g: "getAccessToken ?c ?w = (Inr ''abc'', ?c, ?w)"
    by (simp add: getAccessToken_def mustRenew_def demo_defs)
  have gv: "getAccessToken demo_client ?v = (Inl (TokenFetchError 503 ''status''), demo_client, ?v')"
    by (simp add: fetch_defs demo_defs)
  have w: "api ?w = \<lparr>latency = 10, answer = Some (demo_response 401 ''denied'')\<rparr>
             # [after10 (demo_response 200 ''account'')] \<and> 10 < timeoutMs ?c"
    "trace ?w = []" "login ?w = [after10 (demo_token_response ''new'' 3600)]"
    "\<not> (200 \<le> status (demo_response 401 ''denied'') \<and> status (demo_response 401 ''denied'') < 300)"
    by (simp_all add: demo_defs)
  from ping_single_attempt [of ?c ?w _ ?c ?w "''abc''"] g
  obtain res w2 where p: "ping ?c ?w = (res, ?c, w2)" "trace w2 = trace ?w @ [AccountGet ''abc'']"
    "login w2 = login ?w"
    "\<forall>d r rest. api ?w = \<lparr>latency = d, answer = Some r\<rparr> # rest \<and> d < timeoutMs ?c
               \<longrightarrow> res = Inr (200 \<le> status r \<and> status r < 300)"
    by blast
  from p(4) w(1,4) have "res = Inr False" by blast
  with p(1,2,3) w(2,3) have 1: "fst (ping ?c ?w) = Inr False"
    "trace (snd (snd (ping ?c ?w))) = [AccountGet ''abc'']"
    "login (snd (snd (ping ?c ?w))) = [after10 (demo_token_response ''new'' 3600)]"
    by simp_all
  from ping_single_attempt [of demo_client ?v "TokenFetchError 503 ''status''" demo_client ?v'] gv
  have 2: "ping demo_client ?v = (Inl (TokenFetchError 503 ''status''), demo_client, ?v')"
    by blast
  from 1 2 show ?thesis by blast
qed

section \<open>The pairing of token and expiry\<close>



























section \<open>The refresh under way\<close>

lemma accept_token_marker: "inflightRefresh (snd (accept_token c now r)) = inflightRefresh c"
  by (simp add: accept_token_def split: option.splits)

lemma accept_token_ax_marker: "inflightRefresh (snd (accept_token_ax c now r)) = inflightRefresh c"
  by (simp add: accept_token_ax_def split: option.splits)

lemma coherentE:
  assumes "coherent s"
  obtains "flying s @ map fst (settled s) =
             (case inflightRefresh (obj s) of None \<Rightarrow> [] | Some h \<Rightarrow> [h])"
    and "\<forall>h. inflightRefresh (obj s) = Some h \<longrightarrow> h < requests s"
    and "\<forall>p \<in> set (resolved s). fst p < requests s \<and> inflightRefresh (obj s) \<noteq> Some (fst p)"
    and "distinct (map fst (resolved s))"
    and "distinct (map fst (waiting s))"
    and "\<forall>x \<in> set (returned s). \<forall>h.
           fst (snd x) = Some h \<longrightarrow> map_of (resolved s) h = Some (snd (snd x))"
  using assms unfolding coherent_def by blast

lemma coherentI:
  assumes "flying s @ map fst (settled s) =
             (case inflightRefresh (obj s) of None \<Rightarrow> [] | Some h \<Rightarrow> [h])"
    and "\<forall>h. inflightRefresh (obj s) = Some h \<longrightarrow> h < requests s"
    and "\<forall>p \<in> set (resolved s). fst p < requests s \<and> inflightRefresh (obj s) \<noteq> Some (fst p)"
    and "distinct (map fst (resolved s))"
    and "distinct (map fst (waiting s))"
    and "\<forall>x \<in> set (returned s). \<forall>h.
           fst (snd x) = Some h \<longrightarrow> map_of (resolved s) h = Some (snd (snd x))"
  shows "coherent s"
  using assms unfolding coherent_def by blast

lemma coherent_init: "inflightRefresh c = None \<Longrightarrow> coherent (init_sys c)"
  by (simp add: coherent_def init_sys_def)

lemma coherent_flying: "coherent s \<Longrightarrow> length (flying s) \<le> 1"
proof -
  assume "coherent s"
  then have "flying s @ map fst (settled s) =
      (case inflightRefresh (obj s) of None \<Rightarrow> [] | Some h \<Rightarrow> [h])"
    by (rule coherentE)
  then have "length (flying s @ map fst (settled s)) \<le> 1"
    by (simp split: option.splits)
  then show ?thesis by simp
qed

lemma coherent_idle:
  assumes "coherent s" "inflightRefresh (obj s) = None"
  shows "flying s = []" "settled s = []"
proof -
  from assms(1) have "flying s @ map fst (settled s) =
      (case inflightRefresh (obj s) of None \<Rightarrow> [] | Some h \<Rightarrow> [h])"
    by (rule coherentE)
  with assms(2) show "flying s = []" "settled s = []" by simp_all
qed

lemma coherent_busy:
  assumes "coherent s" "inflightRefresh (obj s) = Some h"
  shows "(flying s = [h] \<and> settled s = []) \<or> (flying s = [] \<and> map fst (settled s) = [h])"
proof -
  from assms(1) have "flying s @ map fst (settled s) =
      (case inflightRefresh (obj s) of None \<Rightarrow> [] | Some h \<Rightarrow> [h])"
    by (rule coherentE)
  with assms(2) have "flying s @ map fst (settled s) = [h]" by simp
  then show ?thesis by (auto simp: append_eq_Cons_conv)
qed

lemma coherent_call_forceRefresh:
  assumes c: "coherent s" and nw: "caller \<notin> fst ` set (waiting s)"
  shows "coherent (call_forceRefresh caller s)"
proof (cases "inflightRefresh (obj s)")
  case None
  let ?h = "requests s"
  let ?s' = "call_forceRefresh caller s"
  note e = coherent_idle [OF c None]
  from None have f: "inflightRefresh (obj ?s') = Some ?h" "flying ?s' = [?h]"
    "settled ?s' = []" "resolved ?s' = resolved s"
    "waiting ?s' = waiting s @ [(caller, ?h)]" "returned ?s' = returned s"
    "requests ?s' = Suc ?h"
    by (simp_all add: call_forceRefresh_def Let_def e)
  from c have i3: "\<forall>p \<in> set (resolved s). fst p < ?h"
    and i4: "distinct (map fst (resolved s))" and i5: "distinct (map fst (waiting s))"
    and i6: "\<forall>x \<in> set (returned s). \<forall>h.
           fst (snd x) = Some h \<longrightarrow> map_of (resolved s) h = Some (snd (snd x))"
    by (blast elim: coherentE)+
  show ?thesis
  proof (rule coherentI)
    show "flying ?s' @ map fst (settled ?s') =
        (case inflightRefresh (obj ?s') of None \<Rightarrow> [] | Some h \<Rightarrow> [h])"
      by (simp add: f)
    show "\<forall>h. inflightRefresh (obj ?s') = Some h \<longrightarrow> h < requests ?s'"
      by (simp add: f)
    show "\<forall>p \<in> set (resolved ?s'). fst p < requests ?s' \<and> inflightRefresh (obj ?s') \<noteq> Some (fst p)"
      using i3 by (fastforce simp: f)
    show "distinct (map fst (resolved ?s'))" using i4 by (simp add: f)
    show "distinct (map fst (waiting ?s'))" using i5 nw by (simp add: f)
    show "\<forall>x \<in> set (returned ?s'). \<forall>h.
           fst (snd x) = Some h \<longrightarrow> map_of (resolved ?s') h = Some (snd (snd x))"
      using i6 by (simp add: f)
  qed
next
  case (Some h)
  let ?s' = "call_forceRefresh caller s"
  from Some have f: "obj ?s' = obj s" "flying ?s' = flying s"
    "settled ?s' = settled s" "resolved ?s' = resolved s"
    "waiting ?s' = waiting s @ [(caller, h)]" "returned ?s' = returned s"
    "requests ?s' = requests s"
    by (simp_all add: call_forceRefresh_def)
  from c have i5: "distinct (map fst (waiting s))" by (rule coherentE)
  show ?thesis
  proof (rule coherentI)
    from c show "flying ?s' @ map fst (settled ?s') =
        (case inflightRefresh (obj ?s') of None \<Rightarrow> [] | Some h \<Rightarrow> [h])"
      unfolding f by (rule coherentE)
    from c show "\<forall>h. inflightRefresh (obj ?s') = Some h \<longrightarrow> h < requests ?s'"
      unfolding f by (rule coherentE)
    from c show "\<forall>p \<in> set (resolved ?s'). fst p < requests ?s' \<and> inflightRefresh (obj ?s') \<noteq> Some (fst p)"
      unfolding f by (rule coherentE)
    from c show "distinct (map fst (resolved ?s'))" unfolding f by (rule coherentE)
    from i5 nw show "distinct (map fst (waiting ?s'))" unfolding f by simp
    from c show "\<forall>x \<in> set (returned ?s'). \<forall>h.
           fst (snd x) = Some h \<longrightarrow> map_of (resolved ?s') h = Some (snd (snd x))"
      unfolding f by (rule coherentE)
  qed
qed

lemma coherent_call_getAccessToken:
  assumes c: "coherent s" and "caller \<notin> fst ` set (waiting s)"
  shows "coherent (call_getAccessToken caller now s)"
proof (cases "mustRenew (obj s) now")
  case True
  with assms show ?thesis by (simp add: call_getAccessToken_def coherent_call_forceRefresh)
next
  case False
  let ?s' = "call_getAccessToken caller now s"
  from False have f: "obj ?s' = obj s" "flying ?s' = flying s"
    "settled ?s' = settled s" "resolved ?s' = resolved s"
    "waiting ?s' = waiting s" "requests ?s' = requests s"
    and g: "returned ?s' = returned s @ [(caller, None, Inr (token (obj s)))]"
    by (simp_all add: call_getAccessToken_def)
  from c have i6: "\<forall>x \<in> set (returned s). \<forall>h.
           fst (snd x) = Some h \<longrightarrow> map_of (resolved s) h = Some (snd (snd x))"
    by (rule coherentE)
  show ?thesis
  proof (rule coherentI)
    from c show "flying ?s' @ map fst (settled ?s') =
        (case inflightRefresh (obj ?s') of None \<Rightarrow> [] | Some h \<Rightarrow> [h])"
      unfolding f by (rule coherentE)
    from c show "\<forall>h. inflightRefresh (obj ?s') = Some h \<longrightarrow> h < requests ?s'"
      unfolding f by (rule coherentE)
    from c show "\<forall>p \<in> set (resolved ?s'). fst p < requests ?s' \<and> inflightRefresh (obj ?s') \<noteq> Some (fst p)"
      unfolding f by (rule coherentE)
    from c show "distinct (map fst (resolved ?s'))" unfolding f by (rule coherentE)
    from c show "distinct (map fst (waiting ?s'))" unfolding f by (rule coherentE)
    from i6 show "\<forall>x \<in> set (returned ?s'). \<forall>h.
           fst (snd x) = Some h \<longrightarrow> map_of (resolved ?s') h = Some (snd (snd x))"
      unfolding f g by simp
  qed
qed


lemma settle_Some:
  assumes "settle acc h r now s = Some s'"
  obtains res c' where "h \<in> set (flying s)"
    "(case r of Inl e \<Rightarrow> (Inl e, obj s) | Inr resp \<Rightarrow> acc (obj s) now resp) = (res, c')"
    "obj s' = c'" "flying s' = removeAll h (flying s)" "settled s' = settled s @ [(h, res)]"
    "resolved s' = resolved s" "waiting s' = waiting s" "returned s' = returned s"
    "requests s' = requests s"
proof -
  from assms have h: "h \<in> set (flying s)"
    by (simp add: settle_def split: if_splits)
  obtain res c' where x: "(case r of Inl e \<Rightarrow> (Inl e, obj s) | Inr resp \<Rightarrow> acc (obj s) now resp)
      = (res, c')"
    by (cases "(case r of Inl e \<Rightarrow> (Inl e, obj s) | Inr resp \<Rightarrow> acc (obj s) now resp)")
  from assms h x have "s' = s\<lparr>obj := c', flying := removeAll h (flying s),
                     settled := settled s @ [(h, res)]\<rparr>"
    by (simp add: settle_def)
  with h x that show ?thesis by simp
qed

lemma coherent_settle:
  assumes c: "coherent s" and st: "settle acc h r now s = Some s'"
    and m: "\<And>c now r. inflightRefresh (snd (acc c now r)) = inflightRefresh c"
  shows "coherent s'"
proof -
  from st obtain res c' where h: "h \<in> set (flying s)"
    and x: "(case r of Inl e \<Rightarrow> (Inl e, obj s) | Inr resp \<Rightarrow> acc (obj s) now resp) = (res, c')"
    and f: "obj s' = c'" "flying s' = removeAll h (flying s)" "settled s' = settled s @ [(h, res)]"
    "resolved s' = resolved s" "waiting s' = waiting s" "returned s' = returned s"
    "requests s' = requests s"
    by (rule settle_Some)
  have mk: "inflightRefresh c' = inflightRefresh (obj s)"
  proof (cases r)
    case (Inl e)
    with x show ?thesis by simp
  next
    case (Inr resp)
    with x have "acc (obj s) now resp = (res, c')" by simp
    with m [of "obj s" now resp] show ?thesis by simp
  qed
  from c have i1: "flying s @ map fst (settled s) =
      (case inflightRefresh (obj s) of None \<Rightarrow> [] | Some h \<Rightarrow> [h])"
    by (rule coherentE)
  with h have b: "flying s = [h]" "settled s = []" "inflightRefresh (obj s) = Some h"
    by (auto split: option.splits simp: append_eq_Cons_conv)
  show ?thesis
  proof (rule coherentI)
    show "flying s' @ map fst (settled s') =
        (case inflightRefresh (obj s') of None \<Rightarrow> [] | Some h \<Rightarrow> [h])"
      by (simp add: f mk b)
    from c show "\<forall>h. inflightRefresh (obj s') = Some h \<longrightarrow> h < requests s'"
      unfolding f mk by (rule coherentE)
    from c show "\<forall>p \<in> set (resolved s'). fst p < requests s' \<and> inflightRefresh (obj s') \<noteq> Some (fst p)"
      unfolding f mk by (rule coherentE)
    from c show "distinct (map fst (resolved s'))" unfolding f by (rule coherentE)
    from c show "distinct (map fst (waiting s'))" unfolding f by (rule coherentE)
    from c show "\<forall>x \<in> set (returned s'). \<forall>h.
           fst (snd x) = Some h \<longrightarrow> map_of (resolved s') h = Some (snd (snd x))"
      unfolding f by (rule coherentE)
  qed
qed

lemma finally_Some:
  assumes "finally_callback h s = Some s'"
  obtains res where "map_of (settled s) h = Some res"
    "obj s' = (obj s)\<lparr>inflightRefresh := None\<rparr>" "flying s' = flying s"
    "settled s' = filter (\<lambda>p. fst p \<noteq> h) (settled s)" "resolved s' = resolved s @ [(h, res)]"
    "waiting s' = waiting s" "returned s' = returned s" "requests s' = requests s"
proof -
  from assms obtain res where r: "map_of (settled s) h = Some res"
    and s': "s' = s\<lparr>obj := (obj s)\<lparr>inflightRefresh := None\<rparr>,
                  settled := filter (\<lambda>p. fst p \<noteq> h) (settled s),
                  resolved := resolved s @ [(h, res)]\<rparr>"
    by (auto simp: finally_callback_def split: option.splits)
  with that show ?thesis by simp
qed

lemma coherent_settled:
  assumes c: "coherent s" and r: "map_of (settled s) h = Some res"
  shows "flying s = []" "settled s = [(h, res)]" "inflightRefresh (obj s) = Some h"
proof -
  from r have hin: "h \<in> fst ` set (settled s)"
    by (metis map_of_eq_None_iff option.distinct(1))
  from c have i1: "flying s @ map fst (settled s) =
      (case inflightRefresh (obj s) of None \<Rightarrow> [] | Some h \<Rightarrow> [h])"
    by (rule coherentE)
  with hin show f: "flying s = []" and mk: "inflightRefresh (obj s) = Some h"
    by (auto split: option.splits simp: append_eq_Cons_conv)
  from i1 f mk have "map fst (settled s) = [h]" by simp
  with r show "settled s = [(h, res)]"
    by (cases "settled s") (auto split: if_splits)
qed

lemma coherent_finally:
  assumes c: "coherent s" and fc: "finally_callback h s = Some s'"
  shows "coherent s'"
proof -
  from fc obtain res where r: "map_of (settled s) h = Some res"
    and f: "obj s' = (obj s)\<lparr>inflightRefresh := None\<rparr>" "flying s' = flying s"
    "settled s' = filter (\<lambda>p. fst p \<noteq> h) (settled s)" "resolved s' = resolved s @ [(h, res)]"
    "waiting s' = waiting s" "returned s' = returned s" "requests s' = requests s"
    by (rule finally_Some)
  note b = coherent_settled [OF c r]
  from c b(3) have lt: "h < requests s" by (blast elim: coherentE)
  from c have i3: "\<forall>p \<in> set (resolved s). fst p < requests s \<and> inflightRefresh (obj s) \<noteq> Some (fst p)"
    and i4: "distinct (map fst (resolved s))"
    and i6: "\<forall>x \<in> set (returned s). \<forall>h.
           fst (snd x) = Some h \<longrightarrow> map_of (resolved s) h = Some (snd (snd x))"
    by (blast elim: coherentE)+
  from i3 b(3) have fresh: "h \<notin> fst ` set (resolved s)" by force
  show ?thesis
  proof (rule coherentI)
    show "flying s' @ map fst (settled s') =
        (case inflightRefresh (obj s') of None \<Rightarrow> [] | Some h \<Rightarrow> [h])"
      by (simp add: f b)
    show "\<forall>h. inflightRefresh (obj s') = Some h \<longrightarrow> h < requests s'"
      by (simp add: f)
    show "\<forall>p \<in> set (resolved s'). fst p < requests s' \<and> inflightRefresh (obj s') \<noteq> Some (fst p)"
      using i3 lt by (simp add: f)
    show "distinct (map fst (resolved s'))"
      using i4 fresh by (simp add: f)
    from c show "distinct (map fst (waiting s'))" unfolding f by (rule coherentE)
    show "\<forall>x \<in> set (returned s'). \<forall>h'.
           fst (snd x) = Some h' \<longrightarrow> map_of (resolved s') h' = Some (snd (snd x))"
      using i6 by (auto simp: f map_add_Some_iff)
  qed
qed

lemma resume_Some:
  assumes "resume caller s = Some s'"
  obtains h res where "map_of (waiting s) caller = Some h" "map_of (resolved s) h = Some res"
    "obj s' = obj s" "flying s' = flying s" "settled s' = settled s" "resolved s' = resolved s"
    "waiting s' = filter (\<lambda>p. fst p \<noteq> caller) (waiting s)"
    "returned s' = returned s @ [(caller, Some h, res)]" "requests s' = requests s"
proof -
  from assms obtain h res where w: "map_of (waiting s) caller = Some h"
    and r: "map_of (resolved s) h = Some res"
    and s': "s' = s\<lparr>waiting := filter (\<lambda>p. fst p \<noteq> caller) (waiting s),
                  returned := returned s @ [(caller, Some h, res)]\<rparr>"
    by (auto simp: resume_def split: option.splits)
  with that show ?thesis by simp
qed

lemma coherent_resume:
  assumes c: "coherent s" and rs: "resume caller s = Some s'"
  shows "coherent s'"
proof -
  from rs obtain h res where w: "map_of (waiting s) caller = Some h"
    and r: "map_of (resolved s) h = Some res"
    and f: "obj s' = obj s" "flying s' = flying s" "settled s' = settled s" "resolved s' = resolved s"
    "requests s' = requests s"
    and g: "waiting s' = filter (\<lambda>p. fst p \<noteq> caller) (waiting s)"
    "returned s' = returned s @ [(caller, Some h, res)]"
    by (rule resume_Some)
  from c have i5: "distinct (map fst (waiting s))"
    and i6: "\<forall>x \<in> set (returned s). \<forall>h.
           fst (snd x) = Some h \<longrightarrow> map_of (resolved s) h = Some (snd (snd x))"
    by (blast elim: coherentE)+
  show ?thesis
  proof (rule coherentI)
    from c show "flying s' @ map fst (settled s') =
        (case inflightRefresh (obj s') of None \<Rightarrow> [] | Some h \<Rightarrow> [h])"
      unfolding f by (rule coherentE)
    from c show "\<forall>h. inflightRefresh (obj s') = Some h \<longrightarrow> h < requests s'"
      unfolding f by (rule coherentE)
    from c show "\<forall>p \<in> set (resolved s'). fst p < requests s' \<and> inflightRefresh (obj s') \<noteq> Some (fst p)"
      unfolding f by (rule coherentE)
    from c show "distinct (map fst (resolved s'))" unfolding f by (rule coherentE)
    from i5 show "distinct (map fst (waiting s'))" unfolding g by (rule distinct_map_filter)
    from i6 r show "\<forall>x \<in> set (returned s'). \<forall>h.
           fst (snd x) = Some h \<longrightarrow> map_of (resolved s') h = Some (snd (snd x))"
      unfolding f g by auto
  qed
qed

lemma coherent_fire:
  assumes "coherent s" "fire acc e s = Some s'"
    and m: "\<And>c now r. inflightRefresh (snd (acc c now r)) = inflightRefresh c"
  shows "coherent s'"
proof (cases e)
  case (Call caller k now)
  with assms(1,2) show ?thesis
    by (cases k) (auto split: if_splits intro: coherent_call_forceRefresh coherent_call_getAccessToken)
next
  case (Settle h r now)
  with assms(2) have "settle acc h r now s = Some s'" by simp
  from coherent_settle [OF assms(1) this m] show ?thesis .
next
  case (Finally h)
  with assms(2) have "finally_callback h s = Some s'" by simp
  from coherent_finally [OF assms(1) this] show ?thesis .
next
  case (Resume caller)
  with assms(2) have "resume caller s = Some s'" by simp
  from coherent_resume [OF assms(1) this] show ?thesis .
qed

lemma coherent_run:
  assumes "coherent s" "run acc es s = Some s'"
    and m: "\<And>c now r. inflightRefresh (snd (acc c now r)) = inflightRefresh c"
  shows "coherent s'"
  using assms(1,2)
proof (induction es arbitrary: s)
  case Nil
  then show ?case by simp
next
  case (Cons e es)
  from Cons.prems(2) obtain s1 where f: "fire acc e s = Some s1" and r: "run acc es s1 = Some s'"
    by (auto split: option.splits)
  from coherent_fire [OF Cons.prems(1) f m] have "coherent s1" .
  from Cons.IH [OF this r] show ?case .
qed

subsection \<open>A group of callers\<close>

lemma run_append:
  "run acc (es @ fs) s = (case run acc es s of None \<Rightarrow> None | Some s' \<Rightarrow> run acc fs s')"
  by (induction es arbitrary: s) (auto split: option.splits)

lemma call_joins:
  assumes "inflightRefresh (obj s) = Some h" "caller \<notin> fst ` set (waiting s)"
    and "k = GetAccessToken \<longrightarrow> mustRenew (obj s) now"
  shows "fire acc (Call caller k now) s = Some (s\<lparr>waiting := waiting s @ [(caller, h)]\<rparr>)"
  using assms by (cases k) (simp_all add: call_getAccessToken_def call_forceRefresh_def)

lemma join_calls:
  assumes "inflightRefresh (obj s) = Some h" "distinct (map fst calls)"
    and "\<forall>x \<in> set calls. fst x \<notin> fst ` set (waiting s)"
    and "\<forall>x \<in> set calls. fst (snd x) = GetAccessToken \<longrightarrow> mustRenew (obj s) (snd (snd x))"
  shows "run acc (map (\<lambda>x. Call (fst x) (fst (snd x)) (snd (snd x))) calls) s
         = Some (s\<lparr>waiting := waiting s @ map (\<lambda>x. (fst x, h)) calls\<rparr>)"
  using assms
proof (induction calls arbitrary: s)
  case Nil
  then show ?case by simp
next
  case (Cons x xs)
  let ?s1 = "s\<lparr>waiting := waiting s @ [(fst x, h)]\<rparr>"
  from Cons.prems have f: "fire acc (Call (fst x) (fst (snd x)) (snd (snd x))) s = Some ?s1"
    by (intro call_joins) simp_all
  from Cons.prems(2) have nx: "fst x \<notin> fst ` set xs" and d: "distinct (map fst xs)"
    by simp_all
  have a: "\<forall>y \<in> set xs. fst y \<notin> fst ` set (waiting ?s1)"
  proof
    fix y assume y: "y \<in> set xs"
    then have "fst y \<in> fst ` set xs" by simp
    with nx have "fst y \<noteq> fst x" by metis
    moreover from y Cons.prems(3) have "fst y \<notin> fst ` set (waiting s)" by simp
    ultimately show "fst y \<notin> fst ` set (waiting ?s1)" by auto
  qed
  from Cons.prems(4) have b: "\<forall>y \<in> set xs. fst (snd y) = GetAccessToken
      \<longrightarrow> mustRenew (obj ?s1) (snd (snd y))"
    by simp
  from Cons.prems(1) have "inflightRefresh (obj ?s1) = Some h" by simp
  from Cons.IH [OF this d a b]
  have "run acc (map (\<lambda>x. Call (fst x) (fst (snd x)) (snd (snd x))) xs) ?s1
         = Some (?s1\<lparr>waiting := waiting ?s1 @ map (\<lambda>x. (fst x, h)) xs\<rparr>)" .
  with f show ?case by simp
qed

lemma resume_all:
  assumes "map_of (resolved s) h = Some res" "waiting s = ws @ map (\<lambda>c. (c, h)) cs"
    and "distinct (map fst (waiting s))"
  shows "run acc (map Resume cs) s
         = Some (s\<lparr>waiting := ws, returned := returned s @ map (\<lambda>c. (c, Some h, res)) cs\<rparr>)"
  using assms
proof (induction cs arbitrary: s)
  case Nil
  then show ?case by simp
next
  case (Cons c cs)
  from Cons.prems(2,3) have notin: "c \<notin> fst ` set ws" "c \<notin> set cs"
    by (auto simp: image_iff comp_def)
  from notin(1) have "map_of ws c = None" by (simp add: map_of_eq_None_iff)
  with Cons.prems(2) have w: "map_of (waiting s) c = Some h"
    by (simp add: map_add_def)
  from notin(1) have f1: "filter (\<lambda>p. fst p \<noteq> c) ws = ws"
    by (auto simp: filter_id_conv)
  from notin(2) have f2: "filter (\<lambda>x. x \<noteq> c) cs = cs"
    by (auto simp: filter_id_conv)
  have flt: "filter (\<lambda>p. fst p \<noteq> c) (waiting s) = ws @ map (\<lambda>c. (c, h)) cs"
    unfolding Cons.prems(2) by (simp add: filter_map comp_def f1 f2)
  let ?s1 = "s\<lparr>waiting := ws @ map (\<lambda>c. (c, h)) cs,
               returned := returned s @ [(c, Some h, res)]\<rparr>"
  from w Cons.prems(1) flt have r: "resume c s = Some ?s1"
    by (simp add: resume_def)
  from Cons.prems(3) have "distinct (map fst (filter (\<lambda>p. fst p \<noteq> c) (waiting s)))"
    by (rule distinct_map_filter)
  with flt have d: "distinct (map fst (waiting ?s1))" by simp
  from Cons.prems(1) have r1: "map_of (resolved ?s1) h = Some res" by simp
  have w1: "waiting ?s1 = ws @ map (\<lambda>c. (c, h)) cs" by simp
  from Cons.IH [OF r1 w1 d]
  have "run acc (map Resume cs) ?s1
      = Some (?s1\<lparr>waiting := ws, returned := returned ?s1 @ map (\<lambda>c. (c, Some h, res)) cs\<rparr>)" .
  with r show ?case by simp
qed


lemma mustRenew_marker: "mustRenew (c\<lparr>inflightRefresh := m\<rparr>) now = mustRenew c now"
  by (simp add: mustRenew_def)

lemma first_call_starts:
  assumes "inflightRefresh (obj s) = None" "caller \<notin> fst ` set (waiting s)"
    and "k = GetAccessToken \<longrightarrow> mustRenew (obj s) now"
  shows "fire acc (Call caller k now) s =
           Some (s\<lparr>obj := (obj s)\<lparr>inflightRefresh := Some (requests s)\<rparr>,
                   flying := requests s # flying s,
                   requests := Suc (requests s),
                   waiting := waiting s @ [(caller, requests s)]\<rparr>)"
  using assms by (cases k) (simp_all add: call_getAccessToken_def call_forceRefresh_def Let_def)

lemma group_run:
  assumes c: "coherent s" and idle: "inflightRefresh (obj s) = None"
    and ne: "calls \<noteq> []" and dist: "distinct (map fst calls)"
    and nw: "\<forall>x \<in> set calls. fst x \<notin> fst ` set (waiting s)"
    and stale: "\<forall>x \<in> set calls. fst (snd x) = GetAccessToken
                  \<longrightarrow> mustRenew (obj s) (snd (snd x))"
    and m: "\<And>c now r. inflightRefresh (snd (acc c now r)) = inflightRefresh c"
    and out: "(case r of Inl e \<Rightarrow> (Inl e, (obj s)\<lparr>inflightRefresh := Some (requests s)\<rparr>)
               | Inr resp \<Rightarrow> acc ((obj s)\<lparr>inflightRefresh := Some (requests s)\<rparr>) now resp)
              = (res, c')"
  shows "\<exists>s'. run acc (map (\<lambda>x. Call (fst x) (fst (snd x)) (snd (snd x))) calls
                       @ [Settle (requests s) r now, Finally (requests s)]
                       @ map (\<lambda>x. Resume (fst x)) calls) s = Some s'
           \<and> requests s' = Suc (requests s) \<and> flying s' = [] \<and> settled s' = []
           \<and> obj s' = c'\<lparr>inflightRefresh := None\<rparr> \<and> waiting s' = waiting s
           \<and> returned s' = returned s @ map (\<lambda>x. (fst x, Some (requests s), res)) calls"
proof -
  let ?h = "requests s"
  let ?o = "(obj s)\<lparr>inflightRefresh := Some ?h\<rparr>"
  from ne obtain x xs where calls: "calls = x # xs" by (cases calls) auto
  note e = coherent_idle [OF c idle]
  let ?s1 = "s\<lparr>obj := ?o, flying := ?h # flying s, requests := Suc ?h,
               waiting := waiting s @ [(fst x, ?h)]\<rparr>"
  from idle nw stale have f1: "fire acc (Call (fst x) (fst (snd x)) (snd (snd x))) s = Some ?s1"
    unfolding calls by (intro first_call_starts) simp_all
  from dist have nx: "fst x \<notin> fst ` set xs" and d: "distinct (map fst xs)"
    unfolding calls by simp_all
  have a: "\<forall>y \<in> set xs. fst y \<notin> fst ` set (waiting ?s1)"
  proof
    fix y assume y: "y \<in> set xs"
    then have "fst y \<in> fst ` set xs" by simp
    with nx have "fst y \<noteq> fst x" by metis
    moreover from y nw have "fst y \<notin> fst ` set (waiting s)" unfolding calls by simp
    ultimately show "fst y \<notin> fst ` set (waiting ?s1)" by auto
  qed
  from stale have b: "\<forall>y \<in> set xs. fst (snd y) = GetAccessToken
      \<longrightarrow> mustRenew (obj ?s1) (snd (snd y))"
    unfolding calls by (simp add: mustRenew_marker)
  have mk1: "inflightRefresh (obj ?s1) = Some ?h" by simp
  let ?s2 = "?s1\<lparr>waiting := waiting ?s1 @ map (\<lambda>x. (fst x, ?h)) xs\<rparr>"
  from join_calls [OF mk1 d a b]
  have r2: "run acc (map (\<lambda>x. Call (fst x) (fst (snd x)) (snd (snd x))) xs) ?s1 = Some ?s2" .
  have w2: "waiting ?s2 = waiting s @ map (\<lambda>c. (c, ?h)) (map fst calls)"
    unfolding calls by (simp add: comp_def)
  have calls_run: "run acc (map (\<lambda>x. Call (fst x) (fst (snd x)) (snd (snd x))) calls) s = Some ?s2"
    unfolding calls using f1 r2 by simp
  let ?s3 = "?s2\<lparr>obj := c', flying := [], settled := [(?h, res)]\<rparr>"
  from out have st: "settle acc ?h r now ?s2 = Some ?s3"
    by (cases r) (simp_all add: settle_def e)
  have mk3: "inflightRefresh c' = Some ?h"
  proof (cases r)
    case (Inl e)
    with out show ?thesis by auto
  next
    case (Inr resp)
    with out have "acc ?o now resp = (res, c')" by simp
    with m [of ?o now resp] show ?thesis by simp
  qed
  let ?s4 = "?s3\<lparr>obj := c'\<lparr>inflightRefresh := None\<rparr>, settled := [],
                 resolved := resolved s @ [(?h, res)]\<rparr>"
  have fin: "finally_callback ?h ?s3 = Some ?s4"
    by (simp add: finally_callback_def)
  from c have old: "\<forall>p \<in> set (resolved s). fst p < ?h" and dw: "distinct (map fst (waiting s))"
    by (blast elim: coherentE)+
  from old have "?h \<notin> fst ` set (resolved s)" by force
  then have "map_of (resolved s) ?h = None" by (simp add: map_of_eq_None_iff)
  then have r4: "map_of (resolved ?s4) ?h = Some res"
    by (simp add: map_add_def)
  have w4: "waiting ?s4 = waiting s @ map (\<lambda>c. (c, ?h)) (map fst calls)"
    using w2 by simp
  from nw have disj: "fst ` set (waiting s) \<inter> set (map fst calls) = {}" by force
  from dw dist disj have d4: "distinct (map fst (waiting ?s4))"
    unfolding w4 by (simp add: comp_def)
  let ?s5 = "?s4\<lparr>waiting := waiting s,
                 returned := returned ?s4 @ map (\<lambda>c. (c, Some ?h, res)) (map fst calls)\<rparr>"
  from resume_all [OF r4 w4 d4]
  have r5: "run acc (map Resume (map fst calls)) ?s4 = Some ?s5" .
  have "run acc (map (\<lambda>x. Call (fst x) (fst (snd x)) (snd (snd x))) calls
                       @ [Settle ?h r now, Finally ?h]
                       @ map (\<lambda>x. Resume (fst x)) calls) s = Some ?s5"
    using calls_run st fin r5 by (simp add: run_append comp_def)
  moreover have "requests ?s5 = Suc ?h" "flying ?s5 = []" "settled ?s5 = []"
    "obj ?s5 = c'\<lparr>inflightRefresh := None\<rparr>" "waiting ?s5 = waiting s"
    "returned ?s5 = returned s @ map (\<lambda>x. (fst x, Some ?h, res)) calls"
    by (simp_all add: comp_def)
  ultimately show ?thesis by blast
qed

section \<open>Single flight\<close>

lemma accept_token_any_marker:
  "fst (accept_token (c\<lparr>inflightRefresh := m\<rparr>) now r) = fst (accept_token c now r)"
  by (simp add: accept_token_def split: option.splits)

lemma accept_token_ax_any_marker:
  "fst (accept_token_ax (c\<lparr>inflightRefresh := m\<rparr>) now r) = fst (accept_token_ax c now r)"
  by (simp add: accept_token_ax_def split: option.splits)

lemma coherent_same_outcome:
  assumes "coherent s" "x \<in> set (returned s)" "y \<in> set (returned s)"
    "fst (snd x) = Some h" "fst (snd y) = Some h"
  shows "snd (snd x) = snd (snd y)"
proof -
  from assms(1) have "\<forall>x \<in> set (returned s). \<forall>h.
           fst (snd x) = Some h \<longrightarrow> map_of (resolved s) h = Some (snd (snd x))"
    by (rule coherentE)
  with assms(2-5) have "map_of (resolved s) h = Some (snd (snd x))"
    "map_of (resolved s) h = Some (snd (snd y))"
    by blast+
  then show ?thesis by simp
qed

text \<open>
  Claim C1 (single-flight refresh). Let \<open>s\<close> be any state that callers of
  \<open>getAccessToken\<close> and \<open>forceRefresh\<close> of either class reach, by steps in any order, from
  a client with no refresh in flight. In \<open>s\<close> at most one token request is in flight; and
  any two callers that awaited the same stored promise got the same outcome. Moreover,
  let no refresh be in flight in \<open>s\<close> and let \<open>N\<close> callers (the list \<open>calls\<close>, each with
  its method and the clock reading of its call) call while the cache is empty or stale.
  Then the calls, the settling of the one POST with any outcome \<open>r\<close>, the \<open>finally\<close>
  callback and the continuations of the callers all run; exactly one token request has
  been sent for the group; and every caller has received the same outcome, the token
  of the response or the error.
\<close>

theorem single_flight:
  assumes acc: "acc = accept_token \<or> acc = accept_token_ax"
    and init: "inflightRefresh c = None" and reach: "run acc steps (init_sys c) = Some s"
  shows "length (flying s) \<le> 1
     \<and> (\<forall>x \<in> set (returned s). \<forall>y \<in> set (returned s). \<forall>h.
          fst (snd x) = Some h \<and> fst (snd y) = Some h \<longrightarrow> snd (snd x) = snd (snd y))
     \<and> (inflightRefresh (obj s) = None \<and> calls \<noteq> [] \<and> distinct (map fst calls)
        \<and> (\<forall>x \<in> set calls. fst x \<notin> fst ` set (waiting s))
        \<and> (\<forall>x \<in> set calls. fst (snd x) = GetAccessToken
              \<longrightarrow> mustRenew (obj s) (snd (snd x)))
        \<longrightarrow> (\<exists>s'. run acc (map (\<lambda>x. Call (fst x) (fst (snd x)) (snd (snd x))) calls
                            @ [Settle (requests s) r now, Finally (requests s)]
                            @ map (\<lambda>x. Resume (fst x)) calls) s = Some s'
                \<and> requests s' = Suc (requests s) \<and> flying s' = []
                \<and> inflightRefresh (obj s') = None
                \<and> returned s' = returned s @
                     map (\<lambda>x. (fst x, Some (requests s),
                               case r of Inl e \<Rightarrow> Inl e
                               | Inr resp \<Rightarrow> fst (acc (obj s) now resp))) calls))"
proof -
  from acc have m: "\<And>c now r. inflightRefresh (snd (acc c now r)) = inflightRefresh c"
    by (auto simp: accept_token_marker accept_token_ax_marker)
  from acc have mi: "\<And>c m now r. fst (acc (c\<lparr>inflightRefresh := m\<rparr>) now r) = fst (acc c now r)"
    by (auto simp: accept_token_any_marker accept_token_ax_any_marker)
  from coherent_run [OF coherent_init [OF init] reach m] have c: "coherent s" .
  from c have 1: "length (flying s) \<le> 1" by (rule coherent_flying)
  from c have 2: "\<forall>x \<in> set (returned s). \<forall>y \<in> set (returned s). \<forall>h.
          fst (snd x) = Some h \<and> fst (snd y) = Some h \<longrightarrow> snd (snd x) = snd (snd y)"
    by (blast intro: coherent_same_outcome)
  have 3: "\<exists>s'. run acc (map (\<lambda>x. Call (fst x) (fst (snd x)) (snd (snd x))) calls
                            @ [Settle (requests s) r now, Finally (requests s)]
                            @ map (\<lambda>x. Resume (fst x)) calls) s = Some s'
                \<and> requests s' = Suc (requests s) \<and> flying s' = []
                \<and> inflightRefresh (obj s') = None
                \<and> returned s' = returned s @
                     map (\<lambda>x. (fst x, Some (requests s),
                               case r of Inl e \<Rightarrow> Inl e
                               | Inr resp \<Rightarrow> fst (acc (obj s) now resp))) calls"
    if h: "inflightRefresh (obj s) = None" "calls \<noteq> []" "distinct (map fst calls)"
      "\<forall>x \<in> set calls. fst x \<notin> fst ` set (waiting s)"
      "\<forall>x \<in> set calls. fst (snd x) = GetAccessToken \<longrightarrow> mustRenew (obj s) (snd (snd x))"
  proof -
    let ?o = "(obj s)\<lparr>inflightRefresh := Some (requests s)\<rparr>"
    obtain res c' where out: "(case r of Inl e \<Rightarrow> (Inl e, ?o) | Inr resp \<Rightarrow> acc ?o now resp)
              = (res, c')"
      by (cases "(case r of Inl e \<Rightarrow> (Inl e, ?o) | Inr resp \<Rightarrow> acc ?o now resp)")
    have res: "res = (case r of Inl e \<Rightarrow> Inl e | Inr resp \<Rightarrow> fst (acc (obj s) now resp))"
    proof (cases r)
      case (Inl e)
      with out show ?thesis by simp
    next
      case (Inr resp)
      with out have "fst (acc ?o now resp) = res" by simp
      with mi [where c = "obj s" and m = "Some (requests s)" and now = now and r = resp] Inr
      show ?thesis by simp
    qed
    from group_run [where acc = acc and s = s and calls = calls and r = r and now = now
        and res = res and c' = c', OF c h m out] obtain s' where
      "run acc (map (\<lambda>x. Call (fst x) (fst (snd x)) (snd (snd x))) calls
                       @ [Settle (requests s) r now, Finally (requests s)]
                       @ map (\<lambda>x. Resume (fst x)) calls) s = Some s'"
      "requests s' = Suc (requests s)" "flying s' = []"
      "obj s' = c'\<lparr>inflightRefresh := None\<rparr>"
      "returned s' = returned s @ map (\<lambda>x. (fst x, Some (requests s), res)) calls"
      by blast
    then show ?thesis unfolding res by (intro exI [of _ s']) simp
  qed
  from 1 2 3 show ?thesis by blast
qed

theorem single_flight_witness:
  "\<exists>s'. run accept_token
          [Call 1 GetAccessToken 1700000000000, Call 2 ForceRefresh 1700000000001,
           Call 3 GetAccessToken 1700000000002,
           Settle 0 (Inr (demo_token_response ''new'' 3600)) 1700000000010, Finally 0,
           Resume 1, Resume 2, Resume 3] (init_sys demo_client) = Some s'
       \<and> requests s' = 1 \<and> flying s' = [] \<and> inflightRefresh (obj s') = None
       \<and> returned s' = [(1, Some 0, Inr ''new''), (2, Some 0, Inr ''new''),
                         (3, Some 0, Inr ''new'')]"
proof -
  let ?calls = "[(1 :: nat, GetAccessToken, 1700000000000 :: int), (2, ForceRefresh, 1700000000001),
                 (3, GetAccessToken, 1700000000002)]"
  have a: "accept_token = accept_token \<or> accept_token = (accept_token_ax :: acceptor)"
    and i: "inflightRefresh (demo_client :: nat client) = None"
    and r: "run accept_token [] (init_sys demo_client) = Some (init_sys demo_client)"
    by (simp_all add: demo_client_def)
  have h: "inflightRefresh (obj (init_sys demo_client)) = None \<and> ?calls \<noteq> []
        \<and> distinct (map fst ?calls)
        \<and> (\<forall>x \<in> set ?calls. fst x \<notin> fst ` set (waiting (init_sys demo_client)))
        \<and> (\<forall>x \<in> set ?calls. fst (snd x) = GetAccessToken
              \<longrightarrow> mustRenew (obj (init_sys demo_client)) (snd (snd x)))"
    by (simp add: init_sys_def demo_client_def mustRenew_def)
  have o: "fst (accept_token (obj (init_sys demo_client)) 1700000000010
                  (demo_token_response ''new'' 3600)) = Inr ''new''"
    by (simp add: accept_token_def init_sys_def demo_defs ok_def)
  have steps_eq: "map (\<lambda>x. Call (fst x) (fst (snd x)) (snd (snd x))) ?calls
                            @ [Settle (requests (init_sys demo_client))
                                 (Inr (demo_token_response ''new'' 3600)) 1700000000010,
                               Finally (requests (init_sys demo_client))]
                            @ map (\<lambda>x. Resume (fst x)) ?calls
      = [Call 1 GetAccessToken 1700000000000, Call 2 ForceRefresh 1700000000001,
           Call 3 GetAccessToken 1700000000002,
           Settle 0 (Inr (demo_token_response ''new'' 3600)) 1700000000010, Finally 0,
           Resume 1, Resume 2, Resume 3]"
    by (simp add: init_sys_def)
  have ret_eq: "returned (init_sys demo_client) @
                     map (\<lambda>x. (fst x, Some (requests (init_sys demo_client)),
                               case Inr (demo_token_response ''new'' 3600) of Inl e \<Rightarrow> Inl e
                               | Inr resp \<Rightarrow> fst (accept_token (obj (init_sys demo_client))
                                                   1700000000010 resp))) ?calls
      = [(1, Some 0, Inr ''new''), (2, Some 0, Inr ''new''), (3, Some 0, Inr ''new'')]"
    by (simp add: o) (simp add: init_sys_def)
  have req: "Suc (requests (init_sys demo_client)) = 1"
    by (simp add: init_sys_def)
  from single_flight [OF a i r, of ?calls "Inr (demo_token_response ''new'' 3600)" 1700000000010] h
  have "\<exists>s'. run accept_token (map (\<lambda>x. Call (fst x) (fst (snd x)) (snd (snd x))) ?calls
                            @ [Settle (requests (init_sys demo_client))
                                 (Inr (demo_token_response ''new'' 3600)) 1700000000010,
                               Finally (requests (init_sys demo_client))]
                            @ map (\<lambda>x. Resume (fst x)) ?calls) (init_sys demo_client) = Some s'
                \<and> requests s' = Suc (requests (init_sys demo_client)) \<and> flying s' = []
                \<and> inflightRefresh (obj s') = None
                \<and> returned s' = returned (init_sys demo_client) @
                     map (\<lambda>x. (fst x, Some (requests (init_sys demo_client)),
                               case Inr (demo_token_response ''new'' 3600) of Inl e \<Rightarrow> Inl e
                               | Inr resp \<Rightarrow> fst (accept_token (obj (init_sys demo_client))
                                                   1700000000010 resp))) ?calls"
    by blast
  then show ?thesis
    unfolding steps_eq ret_eq req .
qed

section \<open>A refresh that fails\<close>

lemma accept_token_failure:
  assumes "status resp < 200 \<or> 300 \<le> status resp \<or> json resp = None
           \<or> (\<exists>b. json resp = Some b \<and> (access_token b = None \<or> expires_in b = None))"
  shows "\<exists>err. accept_token c now resp = (Inl err, c)"
  using assms by (auto simp: accept_token_def ok_def split: option.splits)

lemma accept_token_Inl: "accept_token c now resp = (Inl err, c') \<Longrightarrow> c' = c"
  by (auto simp: accept_token_def split: if_splits option.splits)

lemma forceRefresh_failure:
  assumes "forceRefresh c w = (Inl err, c', w')"
  shows "token c' = token c \<and> expiresAt c' = expiresAt c \<and> inflightRefresh c' = None"
proof -
  have s: "token c1 = token c0 \<and> expiresAt c1 = expiresAt c0"
    if "updateAccessToken_settle c0 w0 = (Inl err, c1, w1)" for c0 c1 :: "unit client" and w0 w1
    using that
    by (auto simp: updateAccessToken_settle_def Let_def split: prod.splits sum.splits
        dest: accept_token_Inl)
  from assms show ?thesis
    by (auto simp: forceRefresh_def updateAccessToken_def split: if_splits prod.splits dest!: s)
qed

lemma forceRefresh_timeout:
  assumes "inflightRefresh c = None" "login w = a # rest" "timeoutMs c \<le> latency a"
  shows "fst (forceRefresh c w) = Inl Aborted"
  using assms
  by (simp add: forceRefresh_def updateAccessToken_def updateAccessToken_settle_def
      fetchWithTimeout_def)

lemma coherent_settled_not_marked:
  assumes "coherent s" "map_of (resolved s) h = Some y"
  shows "inflightRefresh (obj s) \<noteq> Some h"
proof -
  from assms(2) have "(h, y) \<in> set (resolved s)" by (rule map_of_SomeD)
  moreover from assms(1) have
    "\<forall>p \<in> set (resolved s). fst p < requests s \<and> inflightRefresh (obj s) \<noteq> Some (fst p)"
    by (rule coherentE)
  ultimately show ?thesis by force
qed

lemma failing_refresh:
  assumes c: "coherent s" and fly: "h \<in> set (flying s)"
    and out: "(case r of Inl e \<Rightarrow> (Inl e, obj s) | Inr resp \<Rightarrow> accept_token (obj s) now resp)
              = (Inl err, obj s)"
  shows "\<exists>s1 s2. settle accept_token h r now s = Some s1 \<and> finally_callback h s1 = Some s2
      \<and> token (obj s2) = token (obj s) \<and> expiresAt (obj s2) = expiresAt (obj s)
      \<and> inflightRefresh (obj s2) = None \<and> flying s2 = [] \<and> settled s2 = []
      \<and> map_of (resolved s2) h = Some (Inl err) \<and> waiting s2 = waiting s
      \<and> (\<forall>caller. map_of (waiting s) caller = Some h \<longrightarrow>
            (\<exists>s3. resume caller s2 = Some s3
                 \<and> returned s3 = returned s2 @ [(caller, Some h, Inl err)]
                 \<and> inflightRefresh (obj s3) = None))
      \<and> (\<forall>caller now'. caller \<notin> fst ` set (waiting s2) \<longrightarrow>
            (\<exists>s3. fire accept_token (Call caller ForceRefresh now') s2 = Some s3
                 \<and> flying s3 = [requests s2] \<and> requests s3 = Suc (requests s2)))"
proof -
  from c have i1: "flying s @ map fst (settled s) =
      (case inflightRefresh (obj s) of None \<Rightarrow> [] | Some h \<Rightarrow> [h])"
    by (rule coherentE)
  with fly have b: "flying s = [h]" "settled s = []" "inflightRefresh (obj s) = Some h"
    by (auto split: option.splits simp: append_eq_Cons_conv)
  let ?s1 = "s\<lparr>obj := obj s, flying := [], settled := [(h, Inl err)]\<rparr>"
  from out b have st: "settle accept_token h r now s = Some ?s1"
    by (simp add: settle_def)
  let ?s2 = "?s1\<lparr>obj := (obj s)\<lparr>inflightRefresh := None\<rparr>, settled := [],
                 resolved := resolved s @ [(h, Inl err)]\<rparr>"
  have fin: "finally_callback h ?s1 = Some ?s2"
    by (simp add: finally_callback_def)
  from c have i3: "\<forall>p \<in> set (resolved s). fst p < requests s
      \<and> inflightRefresh (obj s) \<noteq> Some (fst p)"
    by (rule coherentE)
  with b(3) have "h \<notin> fst ` set (resolved s)" by force
  then have "map_of (resolved s) h = None" by (simp add: map_of_eq_None_iff)
  then have r2: "map_of (resolved ?s2) h = Some (Inl err)"
    by (simp add: map_add_def)
  have res: "\<exists>s3. resume caller ?s2 = Some s3
                 \<and> returned s3 = returned ?s2 @ [(caller, Some h, Inl err)]
                 \<and> inflightRefresh (obj s3) = None"
    if "map_of (waiting s) caller = Some h" for caller
    using that r2 by (simp add: resume_def)
  have again: "\<exists>s3. fire accept_token (Call caller ForceRefresh now') ?s2 = Some s3
                 \<and> flying s3 = [requests ?s2] \<and> requests s3 = Suc (requests ?s2)"
    if "caller \<notin> fst ` set (waiting ?s2)" for caller now'
    using that by (simp add: call_forceRefresh_def Let_def)
  have "token (obj ?s2) = token (obj s)" "expiresAt (obj ?s2) = expiresAt (obj s)"
    "inflightRefresh (obj ?s2) = None" "flying ?s2 = []" "settled ?s2 = []"
    "waiting ?s2 = waiting s"
    by simp_all
  with st fin r2 res again show ?thesis by blast
qed

text \<open>
  Claim C3 (refresh failure atomicity). Let a refresh \<open>h\<close> be in flight in a state
  \<open>s\<close> that callers reach, and let its POST fail: the transport raises (a timeout, a
  failed connection), or the response has a status outside 2xx, or a body that is no
  object, or no \<open>access_token\<close>, or no \<open>expires_in\<close>. Then the rest of
  \<open>_updateAccessToken\<close> and the \<open>finally\<close> callback run; token and expiry are what they
  were in \<open>s\<close>; the marker is cleared and nothing is in flight; the stored promise holds
  the error; every caller that awaited it continues with that error and finds the marker
  cleared; and a call of \<open>forceRefresh\<close> made then sends a new token request. In every
  reachable state, a caller whose promise has settled never finds the marker pointing at
  that promise. For a caller on its own: a \<open>forceRefresh\<close> that raises leaves token and
  expiry as they were and the marker cleared; and an authorization endpoint that takes
  \<open>timeoutMs\<close> or longer makes it raise the abort error.
\<close>

theorem refresh_failure_atomic:
  assumes init: "inflightRefresh c = None"
    and reach: "run accept_token steps (init_sys c) = Some s"
    and fly: "h \<in> set (flying s)"
    and fails: "(\<exists>e. r = Inl e) \<or>
                (\<exists>resp. r = Inr resp \<and>
                   (status resp < 200 \<or> 300 \<le> status resp \<or> json resp = None
                    \<or> (\<exists>b. json resp = Some b \<and> (access_token b = None \<or> expires_in b = None))))"
  shows "(\<exists>s1 s2 err. settle accept_token h r now s = Some s1 \<and> finally_callback h s1 = Some s2
      \<and> Inl err = (case r of Inl e \<Rightarrow> Inl e | Inr resp \<Rightarrow> fst (accept_token (obj s) now resp))
      \<and> token (obj s2) = token (obj s) \<and> expiresAt (obj s2) = expiresAt (obj s)
      \<and> inflightRefresh (obj s2) = None \<and> flying s2 = [] \<and> settled s2 = []
      \<and> map_of (resolved s2) h = Some (Inl err) \<and> waiting s2 = waiting s
      \<and> (\<forall>caller. map_of (waiting s) caller = Some h \<longrightarrow>
            (\<exists>s3. resume caller s2 = Some s3
                 \<and> returned s3 = returned s2 @ [(caller, Some h, Inl err)]
                 \<and> inflightRefresh (obj s3) = None))
      \<and> (\<forall>caller now'. caller \<notin> fst ` set (waiting s2) \<longrightarrow>
            (\<exists>s3. fire accept_token (Call caller ForceRefresh now') s2 = Some s3
                 \<and> flying s3 = [requests s2] \<and> requests s3 = Suc (requests s2))))
     \<and> (\<forall>caller h'. map_of (waiting s) caller = Some h' \<and> map_of (resolved s) h' \<noteq> None
            \<longrightarrow> inflightRefresh (obj s) \<noteq> Some h')
     \<and> (forceRefresh c0 w = (Inl e0, c1, w1)
            \<longrightarrow> token c1 = token c0 \<and> expiresAt c1 = expiresAt c0 \<and> inflightRefresh c1 = None)
     \<and> (inflightRefresh c0 = None \<and> login w = a # rest \<and> timeoutMs c0 \<le> latency a
            \<longrightarrow> fst (forceRefresh c0 w) = Inl Aborted)"
proof -
  from coherent_run [OF coherent_init [OF init] reach accept_token_marker] have c: "coherent s" .
  from fails obtain err where
    out: "(case r of Inl e \<Rightarrow> (Inl e, obj s) | Inr resp \<Rightarrow> accept_token (obj s) now resp)
              = (Inl err, obj s)"
  proof
    assume "\<exists>e. r = Inl e"
    then obtain e where "r = Inl e" ..
    then have "(case r of Inl e \<Rightarrow> (Inl e, obj s) | Inr resp \<Rightarrow> accept_token (obj s) now resp)
              = (Inl e, obj s)" by simp
    then show ?thesis by (rule that)
  next
    assume "\<exists>resp. r = Inr resp \<and>
                   (status resp < 200 \<or> 300 \<le> status resp \<or> json resp = None
                    \<or> (\<exists>b. json resp = Some b \<and> (access_token b = None \<or> expires_in b = None)))"
    then obtain resp where r: "r = Inr resp" and
      f: "status resp < 200 \<or> 300 \<le> status resp \<or> json resp = None
           \<or> (\<exists>b. json resp = Some b \<and> (access_token b = None \<or> expires_in b = None))"
      by blast
    from accept_token_failure [OF f] obtain e where "accept_token (obj s) now resp = (Inl e, obj s)"
      by blast
    with r have "(case r of Inl e \<Rightarrow> (Inl e, obj s) | Inr resp \<Rightarrow> accept_token (obj s) now resp)
              = (Inl e, obj s)" by simp
    then show ?thesis by (rule that)
  qed
  have e: "Inl err = (case r of Inl e \<Rightarrow> Inl e | Inr resp \<Rightarrow> fst (accept_token (obj s) now resp))"
    using out by (cases r) auto
  from failing_refresh [OF c fly out] e
  have 1: "\<exists>s1 s2 err. settle accept_token h r now s = Some s1 \<and> finally_callback h s1 = Some s2
      \<and> Inl err = (case r of Inl e \<Rightarrow> Inl e | Inr resp \<Rightarrow> fst (accept_token (obj s) now resp))
      \<and> token (obj s2) = token (obj s) \<and> expiresAt (obj s2) = expiresAt (obj s)
      \<and> inflightRefresh (obj s2) = None \<and> flying s2 = [] \<and> settled s2 = []
      \<and> map_of (resolved s2) h = Some (Inl err) \<and> waiting s2 = waiting s
      \<and> (\<forall>caller. map_of (waiting s) caller = Some h \<longrightarrow>
            (\<exists>s3. resume caller s2 = Some s3
                 \<and> returned s3 = returned s2 @ [(caller, Some h, Inl err)]
                 \<and> inflightRefresh (obj s3) = None))
      \<and> (\<forall>caller now'. caller \<notin> fst ` set (waiting s2) \<longrightarrow>
            (\<exists>s3. fire accept_token (Call caller ForceRefresh now') s2 = Some s3
                 \<and> flying s3 = [requests s2] \<and> requests s3 = Suc (requests s2)))"
    by blast
  have 2: "\<forall>caller h'. map_of (waiting s) caller = Some h' \<and> map_of (resolved s) h' \<noteq> None
            \<longrightarrow> inflightRefresh (obj s) \<noteq> Some h'"
    using coherent_settled_not_marked [OF c] by blast
  have 3: "forceRefresh c0 w = (Inl e0, c1, w1)
            \<longrightarrow> token c1 = token c0 \<and> expiresAt c1 = expiresAt c0 \<and> inflightRefresh c1 = None"
    using forceRefresh_failure [of c0 w e0 c1 w1] by blast
  have 4: "inflightRefresh c0 = None \<and> login w = a # rest \<and> timeoutMs c0 \<le> latency a
            \<longrightarrow> fst (forceRefresh c0 w) = Inl Aborted"
    using forceRefresh_timeout [of c0 w a rest] by blast
  from 1 2 3 4 show ?thesis by blast
qed


theorem refresh_failure_atomic_witness:
  "(\<exists>s s1 s2.
      run accept_token [Call 1 GetAccessToken 1700000000000, Call 2 ForceRefresh 1700000000001]
        (init_sys demo_client) = Some s
      \<and> settle accept_token 0
          (Inr \<lparr> status = 200, statusText = ''OK'',
                 json = Some \<lparr> access_token = Some ''abc'', expires_in = None \<rparr>,
                 body_text = None, data_string = [] \<rparr>) 1700000000010 s = Some s1
      \<and> finally_callback 0 s1 = Some s2
      \<and> token (obj s2) = [] \<and> expiresAt (obj s2) = 0 \<and> inflightRefresh (obj s2) = None
      \<and> map_of (resolved s2) 0 = Some (Inl NoAccessToken)
      \<and> (\<exists>s3. resume 1 s2 = Some s3
              \<and> returned s3 = returned s2 @ [(1, Some 0, Inl NoAccessToken)]
              \<and> inflightRefresh (obj s3) = None)
      \<and> (\<exists>s3. resume 2 s2 = Some s3
              \<and> returned s3 = returned s2 @ [(2, Some 0, Inl NoAccessToken)]
              \<and> inflightRefresh (obj s3) = None)
      \<and> (\<exists>s3. fire accept_token (Call 3 ForceRefresh 1700000000020) s2 = Some s3
              \<and> flying s3 = [1] \<and> requests s3 = 2))
   \<and> fst (forceRefresh demo_client
            (demo_world [\<lparr>latency = 20000, answer = Some (demo_token_response ''abc'' 3600)\<rparr>] []))
     = Inl Aborted"
proof -
  let ?r = "Inr \<lparr> status = 200, statusText = ''OK'',
                 json = Some \<lparr> access_token = Some ''abc'', expires_in = None \<rparr>,
                 body_text = None, data_string = [] \<rparr> :: error + response"
  let ?s = "\<lparr> obj = demo_client\<lparr>inflightRefresh := Some 0\<rparr>, flying = [0], settled = [],
              resolved = [], waiting = [(1, 0), (2, 0)], returned = [], requests = 1 \<rparr>"
  let ?w = "demo_world [\<lparr>latency = 20000, answer = Some (demo_token_response ''abc'' 3600)\<rparr>] []"
  have init: "inflightRefresh (demo_client :: nat client) = None"
    by (simp add: demo_client_def)
  have reach: "run accept_token [Call 1 GetAccessToken 1700000000000,
      Call 2 ForceRefresh 1700000000001] (init_sys demo_client) = Some ?s"
    by (simp add: init_sys_def call_getAccessToken_def call_forceRefresh_def mustRenew_def
        demo_client_def)
  have fly: "0 \<in> set (flying ?s)" by simp
  have fails: "(\<exists>e. ?r = Inl e) \<or>
                (\<exists>resp. ?r = Inr resp \<and>
                   (status resp < 200 \<or> 300 \<le> status resp \<or> json resp = None
                    \<or> (\<exists>b. json resp = Some b \<and> (access_token b = None \<or> expires_in b = None))))"
    by simp
  have tmo: "inflightRefresh (demo_client :: unit client) = None
      \<and> login ?w = \<lparr>latency = 20000, answer = Some (demo_token_response ''abc'' 3600)\<rparr> # []
      \<and> timeoutMs (demo_client :: unit client)
          \<le> latency \<lparr>latency = 20000, answer = Some (demo_token_response ''abc'' 3600)\<rparr>"
    by (simp add: demo_client_def demo_world_def)
  note t = refresh_failure_atomic [OF init reach fly fails, of 1700000000010 demo_client ?w _ _ _
      "\<lparr>latency = 20000, answer = Some (demo_token_response ''abc'' 3600)\<rparr>" "[]"]
  from t obtain s1 s2 err where
    a: "settle accept_token 0 ?r 1700000000010 ?s = Some s1" "finally_callback 0 s1 = Some s2"
    and e: "Inl err = (case ?r of Inl e \<Rightarrow> Inl e
               | Inr resp \<Rightarrow> fst (accept_token (obj ?s) 1700000000010 resp))"
    and b: "token (obj s2) = token (obj ?s)" "expiresAt (obj s2) = expiresAt (obj ?s)"
      "inflightRefresh (obj s2) = None" "map_of (resolved s2) 0 = Some (Inl err)"
      "waiting s2 = waiting ?s"
    and res: "\<forall>caller. map_of (waiting ?s) caller = Some 0 \<longrightarrow>
            (\<exists>s3. resume caller s2 = Some s3
                 \<and> returned s3 = returned s2 @ [(caller, Some 0, Inl err)]
                 \<and> inflightRefresh (obj s3) = None)"
    and again: "\<forall>caller now'. caller \<notin> fst ` set (waiting s2) \<longrightarrow>
            (\<exists>s3. fire accept_token (Call caller ForceRefresh now') s2 = Some s3
                 \<and> flying s3 = [requests s2] \<and> requests s3 = Suc (requests s2))"
    by blast
  from e have err: "err = NoAccessToken"
    by (simp add: accept_token_def ok_def)
  from a have rq: "requests s2 = 1"
    by (auto simp: settle_def finally_callback_def split: if_splits option.splits prod.splits)
  from b(1,2) have cred: "token (obj s2) = []" "expiresAt (obj s2) = 0"
    by (simp_all add: demo_client_def)
  from res have r1: "\<exists>s3. resume 1 s2 = Some s3
                 \<and> returned s3 = returned s2 @ [(1, Some 0, Inl NoAccessToken)]
                 \<and> inflightRefresh (obj s3) = None"
    and r2: "\<exists>s3. resume 2 s2 = Some s3
                 \<and> returned s3 = returned s2 @ [(2, Some 0, Inl NoAccessToken)]
                 \<and> inflightRefresh (obj s3) = None"
    unfolding err by simp_all
  from b(5) have "(3 :: nat) \<notin> fst ` set (waiting s2)" by simp
  with again rq have r3: "\<exists>s3. fire accept_token (Call 3 ForceRefresh 1700000000020) s2 = Some s3
              \<and> flying s3 = [1] \<and> requests s3 = 2"
    by (metis Suc_1)
  from t tmo have 2: "fst (forceRefresh demo_client ?w) = Inl Aborted" by blast
  from reach a cred b(3,4) err r1 r2 r3 2 show ?thesis by blast
qed

end
